theory Spec2Isabelle
  imports Complex_Main "HOL-Library.AList"
begin

section \<open>Dynamic systems with unlimited memory: the notebook's recurrences\<close>

text \<open>
  The notebook \<^verbatim>\<open>dynamic_systems_unlimited_memory.ipynb\<close> holds four code cells that
  compute a sequence of hidden states from an input sequence: the function
  \<^verbatim>\<open>exponential_average\<close>, the running-maximum loop, the zero-crossing loop with its
  indicator \<^verbatim>\<open>zero_cross_counter\<close>, and the histogram loop with \<^verbatim>\<open>update_histogram\<close>.
  Python floats are idealised as real numbers; a Python exception is a value of
  \<open>py_error\<close> on the left of a sum.
\<close>

datatype py_error = IndexError | KeyError

subsection \<open>Example 2: exponential average\<close>

text \<open>
  \<^verbatim>\<open>
  def exponential_average(x,alpha):
      h = [x[0]]
      for p in range(len(x) - 1):
          x_p = x[p]
          h_p = alpha*h[-1] + (1 - alpha)*x_p
          h.append(h_p)
      return np.array(h)
  \<close>
  \<^verbatim>\<open>x[0]\<close> raises on an empty sequence. Inside the loop \<open>p < len(x) - 1\<close>, so
  \<^verbatim>\<open>x[p]\<close> is in range, and \<open>h\<close> is never empty, so \<^verbatim>\<open>h[-1]\<close> is its last element.
\<close>

definition exponential_average_body :: "real list \<Rightarrow> real \<Rightarrow> nat \<Rightarrow> real list \<Rightarrow> real list" where
  "exponential_average_body x alpha p h =
     (let x_p = x ! p;
          h_p = alpha * last h + (1 - alpha) * x_p
      in h @ [h_p])"

definition exponential_average :: "real list \<Rightarrow> real \<Rightarrow> py_error + real list" where
  "exponential_average x alpha =
     (if x = [] then Inl IndexError
      else Inr (fold (exponential_average_body x alpha) [0 ..< length x - 1] [x ! 0]))"

subsection \<open>Example 4: running maximum\<close>

text \<open>
  \<^verbatim>\<open>
  h = [x[0]]
  for p in range(1,len(x)):
      ave = h[-1]
      x_p = x[p]
      new_ave = np.maximum(ave,x_p)
      h.append(new_ave)
  \<close>
\<close>

definition running_maximum_body :: "real list \<Rightarrow> nat \<Rightarrow> real list \<Rightarrow> real list" where
  "running_maximum_body x p h =
     (let ave = last h;
          x_p = x ! p;
          new_ave = max ave x_p
      in h @ [new_ave])"

definition running_maximum :: "real list \<Rightarrow> py_error + real list" where
  "running_maximum x =
     (if x = [] then Inl IndexError
      else Inr (fold (running_maximum_body x) [1 ..< length x] [x ! 0]))"

subsection \<open>Example 5: running count of zero crossings\<close>

text \<open>
  \<^verbatim>\<open>
  def zero_cross_counter(x_t,x_t_minus_1):
      cross = 0
      if (x_t_minus_1 >=0 and x_t <= 0) or (x_t_minus_1 <=0 and x_t >= 0):
          cross = 1
      return cross

  h = [x[0]]
  for t in range(1,len(x)):
      h_t = h[-1]
      x_t_minus_1 = x[t-1]
      x_t = x[t]
      cross = zero_cross_counter(x_t,x_t_minus_1)
      h.append(h_t + cross)
  \<close>
\<close>

definition zero_cross_counter :: "real \<Rightarrow> real \<Rightarrow> int" where
  "zero_cross_counter x_t x_t_minus_1 =
     (let cross = 0
      in if (x_t_minus_1 \<ge> 0 \<and> x_t \<le> 0) \<or> (x_t_minus_1 \<le> 0 \<and> x_t \<ge> 0)
         then 1 else cross)"

definition zero_cross_body :: "real list \<Rightarrow> nat \<Rightarrow> real list \<Rightarrow> real list" where
  "zero_cross_body x t h =
     (let h_t = last h;
          x_t_minus_1 = x ! (t - 1);
          x_t = x ! t;
          cross = zero_cross_counter x_t x_t_minus_1
      in h @ [h_t + of_int cross])"

definition zero_cross_run :: "real list \<Rightarrow> py_error + real list" where
  "zero_cross_run x =
     (if x = [] then Inl IndexError
      else Inr (fold (zero_cross_body x) [1 ..< length x] [x ! 0]))"

subsection \<open>Example 6: running normalized histogram\<close>

text \<open>
  The hidden state is a Python dict from bin label to weight, kept here as an association
  list in insertion order. \<^verbatim>\<open>h[k]\<close> raises \<open>KeyError\<close> on a missing key; \<^verbatim>\<open>h[k] = v\<close>
  overwrites the entry of \<open>k\<close> in place, or appends one when \<open>k\<close> is new.
\<close>

type_synonym histogram = "(real \<times> real) list"

definition getitem :: "histogram \<Rightarrow> real \<Rightarrow> py_error + real" where
  "getitem h k = (case map_of h k of None \<Rightarrow> Inl KeyError | Some v \<Rightarrow> Inr v)"

definition setitem :: "histogram \<Rightarrow> real \<Rightarrow> real \<Rightarrow> histogram" where
  "setitem h k v = AList.update k v h"

definition keys :: "histogram \<Rightarrow> real list" where
  "keys h = map fst h"

definition total_weight :: "histogram \<Rightarrow> real" where
  "total_weight h = sum_list (map snd h)"

text \<open>
  numpy's \<^verbatim>\<open>rint\<close> rounds to the nearest integer, a tie going to the even neighbour, and
  \<^verbatim>\<open>np.round(a, decimals)\<close> is \<^verbatim>\<open>rint(a * 10**decimals) / 10**decimals\<close>.
  \<^verbatim>\<open>np.linspace(start, stop, num)\<close> is \<^verbatim>\<open>start + arange(num) * ((stop - start) / (num - 1))\<close>
  and \<^verbatim>\<open>np.unique\<close> returns the distinct values in increasing order.
\<close>

definition rint :: "real \<Rightarrow> int" where
  "rint y =
     (let f = \<lfloor>y\<rfloor>; d = y - of_int f
      in if d < 1 / 2 then f
         else if 1 / 2 < d then f + 1
         else if even f then f else f + 1)"

definition np_round :: "real \<Rightarrow> nat \<Rightarrow> real" where
  "np_round a decimals = of_int (rint (a * 10 ^ decimals)) / 10 ^ decimals"

definition linspace :: "real \<Rightarrow> real \<Rightarrow> nat \<Rightarrow> real list" where
  "linspace start stop num =
     map (\<lambda>i. start + of_nat i * ((stop - start) / of_nat (num - 1))) [0 ..< num]"

definition np_unique :: "real list \<Rightarrow> real list" where
  "np_unique xs = sort (remdups xs)"

text \<open>
  \<^verbatim>\<open>
  def update_histogram(h_t,x_t,alpha):
      for key in h_t.keys():
          h_t[key]=h_t[key]*(1 - alpha)
      x_t = np.round(x_t,1)
      if x_t < 0:
          x_t = 0
      if x_t > 10:
          x_t = 10
      h_t[x_t] += alpha
      return h_t
  \<close>
\<close>

fun decay_loop :: "real list \<Rightarrow> real \<Rightarrow> histogram \<Rightarrow> py_error + histogram" where
  "decay_loop [] alpha h_t = Inr h_t"
| "decay_loop (key # ks) alpha h_t =
     (case getitem h_t key of
        Inl e \<Rightarrow> Inl e
      | Inr v \<Rightarrow> decay_loop ks alpha (setitem h_t key (v * (1 - alpha))))"

definition update_histogram :: "histogram \<Rightarrow> real \<Rightarrow> real \<Rightarrow> py_error + histogram" where
  "update_histogram h_t x_t alpha =
     (case decay_loop (keys h_t) alpha h_t of
        Inl e \<Rightarrow> Inl e
      | Inr h1 \<Rightarrow>
          (let x1 = np_round x_t 1;
               x2 = (if x1 < 0 then 0 else x1);
               x3 = (if x2 > 10 then 10 else x2)
           in case getitem h1 x3 of
                Inl e \<Rightarrow> Inl e
              | Inr v \<Rightarrow> Inr (setitem h1 x3 (v + alpha))))"

text \<open>
  \<^verbatim>\<open>
  bins = np.unique(np.array([np.round(a,1) for a in np.linspace(0,10,10000)]))
  h_t = {a:0 for a in bins}

  h_all = [copy.deepcopy(h_t)]
  n = 1
  for x_t in x:
      alpha = 0.1
      h_t = update_histogram(h_t,x_t,alpha)
      h_all.append(copy.deepcopy(h_t))
      n+=1
  \<close>
  The loop carries the current state, the history and the counter \<open>n\<close>; the history is
  what the cell hands on. Each history entry is a deep copy, so later updates do not
  reach it. \<open>histogram_from\<close> is the loop started in a given state, \<open>histogram_run\<close>
  is the cell: the loop started in the state built from the bins.
\<close>

definition bins :: "real list" where
  "bins = np_unique (map (\<lambda>a. np_round a 1) (linspace 0 10 10000))"

definition h_init :: histogram where
  "h_init = map (\<lambda>a. (a, 0)) bins"

fun histogram_loop ::
  "real list \<Rightarrow> histogram \<Rightarrow> histogram list \<Rightarrow> int \<Rightarrow> py_error + (histogram \<times> histogram list \<times> int)"
where
  "histogram_loop [] h_t h_all n = Inr (h_t, h_all, n)"
| "histogram_loop (x_t # xs) h_t h_all n =
     (let alpha = 1 / 10
      in case update_histogram h_t x_t alpha of
           Inl e \<Rightarrow> Inl e
         | Inr h' \<Rightarrow> histogram_loop xs h' (h_all @ [h']) (n + 1))"

definition histogram_from :: "histogram \<Rightarrow> real list \<Rightarrow> py_error + histogram list" where
  "histogram_from h_t x =
     (case histogram_loop x h_t [h_t] 1 of
        Inl e \<Rightarrow> Inl e
      | Inr (h_t', h_all, n) \<Rightarrow> Inr h_all)"

definition histogram_run :: "real list \<Rightarrow> py_error + histogram list" where
  "histogram_run x = histogram_from h_init x"

text \<open>The uniform grid of one-decimal values in \<open>[0, 10]\<close>: \<open>0, 0.1, \<dots>, 10\<close>.\<close>

definition grid :: "real list" where
  "grid = map (\<lambda>k. of_nat k / 10) [0 ..< 101]"

text \<open>The number of hidden states a run returns, when it returns.\<close>

definition output_length :: "py_error + 'a list \<Rightarrow> nat option" where
  "output_length r = (case r of Inl e \<Rightarrow> None | Inr h \<Rightarrow> Some (length h))"


subsection \<open>Running variance\<close>

text \<open>
  Modelled from the spec: the running-variance variant of the recurrence evaluator. The
  notebook states its two coupled recursions as formulas only and has no code cell for
  them, so the step and the evaluator below follow the spec's table of variants
  (running mean \<open>h = ((p-1)/p) h_prev + (1/p) x\<close>; running variance
  \<open>h_var = ((p-1)/p) h_var_prev + (1/p) (x - h_ave) (x - h_ave_prev)\<close>, with the step
  counter \<open>p\<close> starting at 1) and its contract (an empty sequence is an error, one hidden
  state per input, an optional explicit initial state).
\<close>

datatype evaluator_error = EmptyInputError

text \<open>
  Modelled from the spec: the running-mean update \<open>h = ((p-1)/p) h_prev + (1/p) x\<close> of the
  variant table; the notebook has no code for it.
\<close>

definition running_mean_step :: "nat \<Rightarrow> real \<Rightarrow> real \<Rightarrow> real" where
  "running_mean_step p h_prev x =
     ((of_nat p - 1) / of_nat p) * h_prev + (1 / of_nat p) * x"

text \<open>
  Modelled from the spec: one step of the two coupled recursions of the running-variance
  variant, the running mean first and then
  \<open>h_var = ((p-1)/p) h_var_prev + (1/p) (x - h_ave) (x - h_ave_prev)\<close>; the notebook has no
  code for it. The state is the pair \<open>(h_ave, h_var)\<close>.
\<close>

definition running_variance_step :: "nat \<Rightarrow> real \<times> real \<Rightarrow> real \<Rightarrow> real \<times> real" where
  "running_variance_step p prev x =
     (let h_ave_prev = fst prev; h_var_prev = snd prev;
          h_ave = running_mean_step p h_ave_prev x;
          h_var = ((of_nat p - 1) / of_nat p) * h_var_prev
                    + (1 / of_nat p) * (x - h_ave) * (x - h_ave_prev)
      in (h_ave, h_var))"

text \<open>
  Modelled from the spec: the evaluator's loop for this variant, which applies the step
  once per arriving input, in order, with the step counter advancing by one, and emits one
  hidden state per input; the notebook has no code for it.
\<close>

fun running_variance_loop :: "nat \<Rightarrow> real \<times> real \<Rightarrow> real list \<Rightarrow> (real \<times> real) list" where
  "running_variance_loop p prev [] = []"
| "running_variance_loop p prev (x # xs) =
     (let cur = running_variance_step p prev x
      in cur # running_variance_loop (p + 1) cur xs)"

text \<open>
  Modelled from the spec: the evaluator for this variant, which fails on an empty sequence
  and otherwise runs the loop from step 1 and the given initial state; the notebook has no
  code for it. At step 1 the factor \<open>(p-1)/p\<close> is 0, so the first state is \<open>(x\<^sub>1, 0)\<close>
  whatever the initial state is.
\<close>

definition running_variance :: "real \<times> real \<Rightarrow> real list \<Rightarrow> evaluator_error + (real \<times> real) list" where
  "running_variance initial x =
     (if x = [] then Inl EmptyInputError else Inr (running_variance_loop 1 initial x))"

text \<open>
  The textbook definitions the recursion is compared with: the arithmetic mean and the
  population variance \<open>(1/p) \<Sum>\<^sub>j (x\<^sub>j - mean)\<^sup>2\<close> of a finite sequence.
\<close>

definition mean :: "real list \<Rightarrow> real" where
  "mean ys = sum_list ys / of_nat (length ys)"

definition population_variance :: "real list \<Rightarrow> real" where
  "population_variance ys = (\<Sum>y\<leftarrow>ys. (y - mean ys)\<^sup>2) / of_nat (length ys)"

subsection \<open>The shape shared by the scalar loops\<close>

text \<open>
  Each scalar loop appends to the history a value computed from the loop index and the
  last history entry. \<open>scan_from g a n s\<close> is the history after \<open>n\<close> such steps from
  index \<open>a\<close> and seed \<open>s\<close>.
\<close>

definition snoc_step :: "(nat \<Rightarrow> real \<Rightarrow> real) \<Rightarrow> nat \<Rightarrow> real list \<Rightarrow> real list" where
  "snoc_step g p h = h @ [g p (last h)]"

definition scan_from :: "(nat \<Rightarrow> real \<Rightarrow> real) \<Rightarrow> nat \<Rightarrow> nat \<Rightarrow> real \<Rightarrow> real list" where
  "scan_from g a n s = fold (snoc_step g) [a ..< a + n] [s]"

section \<open>Properties of the scalar loops\<close>

lemma scan_from_0: "scan_from g a 0 s = [s]"
  by (simp add: scan_from_def)

lemma scan_from_Suc: "scan_from g a (Suc n) s = scan_from g a n s @ [g (a + n) (last (scan_from g a n s))]"
  by (simp add: scan_from_def snoc_step_def)

lemma length_scan_from: "length (scan_from g a n s) = Suc n"
  by (induction n) (simp_all add: scan_from_0 scan_from_Suc)

lemma scan_from_first: "scan_from g a n s ! 0 = s"
  by (induction n) (simp_all add: scan_from_0 scan_from_Suc nth_append length_scan_from)

lemma scan_from_step:
  "k < n \<Longrightarrow> scan_from g a n s ! Suc k = g (a + k) (scan_from g a n s ! k)"
proof (induction n)
  case 0
  then show ?case by simp
next
  case (Suc n)
  let ?H = "scan_from g a n s"
  have len: "length ?H = Suc n" by (rule length_scan_from)
  show ?case
  proof (cases "k < n")
    case True
    with Suc.IH len show ?thesis
      by (simp add: scan_from_Suc nth_append)
  next
    case False
    with Suc.prems have k: "k = n" by simp
    from len have "?H \<noteq> []" by auto
    then have "last ?H = ?H ! n"
      using len by (simp add: last_conv_nth)
    with len k show ?thesis
      by (simp add: scan_from_Suc nth_append)
  qed
qed

lemma exponential_average_body_snoc:
  "exponential_average_body x alpha = snoc_step (\<lambda>p prev. alpha * prev + (1 - alpha) * x ! p)"
  by (simp add: fun_eq_iff exponential_average_body_def snoc_step_def Let_def)

lemma running_maximum_body_snoc:
  "running_maximum_body x = snoc_step (\<lambda>p prev. max prev (x ! p))"
  by (simp add: fun_eq_iff running_maximum_body_def snoc_step_def Let_def)

lemma zero_cross_body_snoc:
  "zero_cross_body x =
     snoc_step (\<lambda>t prev. prev + of_int (zero_cross_counter (x ! t) (x ! (t - 1))))"
  by (simp add: fun_eq_iff zero_cross_body_def snoc_step_def Let_def)

lemma exponential_average_scan:
  "x \<noteq> [] \<Longrightarrow> exponential_average x alpha =
     Inr (scan_from (\<lambda>p prev. alpha * prev + (1 - alpha) * x ! p) 0 (length x - 1) (x ! 0))"
  by (simp add: exponential_average_def scan_from_def exponential_average_body_snoc)

lemma running_maximum_scan:
  "x \<noteq> [] \<Longrightarrow> running_maximum x =
     Inr (scan_from (\<lambda>p prev. max prev (x ! p)) 1 (length x - 1) (x ! 0))"
  by (cases x) (simp_all add: running_maximum_def scan_from_def running_maximum_body_snoc)

lemma zero_cross_run_scan:
  "x \<noteq> [] \<Longrightarrow> zero_cross_run x =
     Inr (scan_from (\<lambda>t prev. prev + of_int (zero_cross_counter (x ! t) (x ! (t - 1)))) 1 (length x - 1) (x ! 0))"
  by (cases x) (simp_all add: zero_cross_run_def scan_from_def zero_cross_body_snoc)


text \<open>
  What the loop of \<^verbatim>\<open>exponential_average\<close> computes: the state at (0-based) index \<open>p\<close>
  combines the previous state with the input at index \<open>p - 1\<close>, since the loop variable
  runs over \<^verbatim>\<open>range(len(x) - 1)\<close> and reads \<^verbatim>\<open>x[p]\<close>.
\<close>

lemma exponential_average_step:
  assumes "x \<noteq> []"
  shows "\<exists>h. exponential_average x alpha = Inr h \<and> length h = length x \<and> h ! 0 = x ! 0 \<and>
           (\<forall>p. 1 \<le> p \<and> p < length x \<longrightarrow>
                h ! p = alpha * h ! (p - 1) + (1 - alpha) * x ! (p - 1))"
proof -
  let ?h = "scan_from (\<lambda>p prev. alpha * prev + (1 - alpha) * x ! p) 0 (length x - 1) (x ! 0)"
  have run: "exponential_average x alpha = Inr ?h"
    using assms by (rule exponential_average_scan)
  have len: "length ?h = length x"
    using assms by (simp add: length_scan_from)
  have step: "?h ! p = alpha * ?h ! (p - 1) + (1 - alpha) * x ! (p - 1)"
    if "1 \<le> p" "p < length x" for p
  proof -
    from that obtain k where k: "p = Suc k" "k < length x - 1"
      by (cases p) auto
    show ?thesis
      using scan_from_step [OF k(2), of _ 0 "x ! 0"] k(1) by simp
  qed
  from run len step show ?thesis
    by (auto simp: scan_from_first)
qed

lemma exponential_average_alpha_one:
  assumes "x \<noteq> []"
  shows "\<exists>h. exponential_average x 1 = Inr h \<and> length h = length x \<and>
           (\<forall>p < length x. h ! p = h ! 0)"
proof -
  from exponential_average_step [OF assms, of 1] obtain h where
    h: "exponential_average x 1 = Inr h" "length h = length x"
       "\<And>p. 1 \<le> p \<Longrightarrow> p < length x \<Longrightarrow> h ! p = h ! (p - 1)"
    by auto
  have "p < length x \<Longrightarrow> h ! p = h ! 0" for p
  proof (induction p)
    case 0
    show ?case by simp
  next
    case (Suc p)
    then show ?case using h(3) [of "Suc p"] by simp
  qed
  with h(1,2) show ?thesis by blast
qed

lemma exponential_average_alpha_zero:
  assumes "x \<noteq> []"
  shows "\<exists>h. exponential_average x 0 = Inr h \<and> length h = length x \<and> h ! 0 = x ! 0 \<and>
           (\<forall>p. 1 \<le> p \<and> p < length x \<longrightarrow> h ! p = x ! (p - 1))"
  using exponential_average_step [OF assms, of 0] by simp

text \<open>
  C3: the zero-crossing indicator returns 1 exactly when the pair \<open>(x\<^sub>p\<^sub>-\<^sub>1, x\<^sub>p)\<close> straddles
  zero under non-strict inequalities, and 0 otherwise. A value of exactly 0 satisfies the
  condition on either side, so two consecutive zeros count as a crossing, and on the input
  \<open>[0, 1, -1, 0, 1]\<close> each of the four consecutive pairs adds 1 to the count.
\<close>

theorem zero_cross_counter_nonstrict:
  "(zero_cross_counter x_t x_t_minus_1 = 1) =
     ((x_t_minus_1 \<ge> 0 \<and> x_t \<le> 0) \<or> (x_t_minus_1 \<le> 0 \<and> x_t \<ge> 0))
   \<and> (zero_cross_counter x_t x_t_minus_1 = 0) =
     (\<not> ((x_t_minus_1 \<ge> 0 \<and> x_t \<le> 0) \<or> (x_t_minus_1 \<le> 0 \<and> x_t \<ge> 0)))
   \<and> zero_cross_counter 0 0 = 1
   \<and> map (\<lambda>t. zero_cross_counter ([0, 1, -1, 0, 1] ! t) ([0, 1, -1, 0, 1] ! (t - 1))) [1, 2, 3, 4]
       = [1, 1, 1, 1]
   \<and> zero_cross_run [0, 1, -1, 0, 1] = Inr [0, 1, 2, 3, 4]"
  by (simp add: zero_cross_counter_def zero_cross_run_def zero_cross_body_def upt_rec)

text \<open>
  C7: for a non-empty input the running-maximum loop returns a history that never decreases:
  \<open>h\<^sub>p \<ge> h\<^sub>p\<^sub>-\<^sub>1\<close> at every step after the first.
\<close>

theorem running_maximum_nondecreasing:
  assumes "x \<noteq> []"
  shows "\<exists>h. running_maximum x = Inr h \<and> length h = length x \<and>
           (\<forall>p. 1 \<le> p \<and> p < length h \<longrightarrow> h ! (p - 1) \<le> h ! p)"
proof -
  let ?h = "scan_from (\<lambda>p prev. max prev (x ! p)) 1 (length x - 1) (x ! 0)"
  have run: "running_maximum x = Inr ?h"
    using assms by (rule running_maximum_scan)
  have len: "length ?h = length x"
    using assms by (simp add: length_scan_from)
  have mono: "?h ! (p - 1) \<le> ?h ! p" if "1 \<le> p" "p < length ?h" for p
  proof -
    from that len obtain k where k: "p = Suc k" "k < length x - 1"
      by (cases p) auto
    show ?thesis
      using scan_from_step [OF k(2), of _ 1 "x ! 0"] k(1) by simp
  qed
  from run len mono show ?thesis by blast
qed

theorem running_maximum_nondecreasing_witness:
  "[1, 3, 2] \<noteq> ([] :: real list) \<and>
   (\<exists>h. running_maximum [1, 3, 2] = Inr h \<and> length h = 3 \<and> h ! 0 \<le> h ! 1 \<and> h ! 1 \<le> h ! 2)"
proof -
  have ne: "[1, 3, 2] \<noteq> ([] :: real list)" by simp
  from running_maximum_nondecreasing [OF ne] obtain h where
    h: "running_maximum [1, 3, 2] = Inr h" "length h = length [1, 3, 2 :: real]"
       "\<And>p. 1 \<le> p \<and> p < length h \<Longrightarrow> h ! (p - 1) \<le> h ! p"
    by blast
  from h(2) h(3) [of 1] h(3) [of 2] have "h ! 0 \<le> h ! 1" "h ! 1 \<le> h ! 2"
    by simp_all
  with h(1,2) ne show ?thesis by auto
qed

text \<open>
  C10: the zero-crossing loop seeds its history with the raw first input, not with a count of
  zero: \<open>h\<^sub>1 = x\<^sub>1\<close>, and every later state is \<open>x\<^sub>1\<close> plus the number of straddling pairs seen
  so far. (Indices below are 0-based: \<open>h ! p\<close> is the state after input \<open>x ! p\<close>.)
\<close>

theorem zero_cross_run_seeded_with_first_input:
  assumes "x \<noteq> []"
  shows "\<exists>h. zero_cross_run x = Inr h \<and> length h = length x \<and> h ! 0 = x ! 0 \<and>
           (\<forall>p. 1 \<le> p \<and> p < length x \<longrightarrow>
                h ! p = x ! 0 + (\<Sum>t = 1..p. of_int (zero_cross_counter (x ! t) (x ! (t - 1)))))"
proof -
  let ?g = "\<lambda>t prev. prev + of_int (zero_cross_counter (x ! t) (x ! (t - 1)))"
  let ?h = "scan_from ?g 1 (length x - 1) (x ! 0)"
  have run: "zero_cross_run x = Inr ?h"
    using assms by (rule zero_cross_run_scan)
  have len: "length ?h = length x"
    using assms by (simp add: length_scan_from)
  have first: "?h ! 0 = x ! 0"
    by (rule scan_from_first)
  have acc: "p < length x \<Longrightarrow>
      ?h ! p = x ! 0 + (\<Sum>t = 1..p. of_int (zero_cross_counter (x ! t) (x ! (t - 1))))" for p
  proof (induction p)
    case 0
    show ?case using first by simp
  next
    case (Suc p)
    then have p: "p < length x - 1" by simp
    from Suc have IH: "?h ! p = x ! 0 + (\<Sum>t = 1..p. of_int (zero_cross_counter (x ! t) (x ! (t - 1))))"
      by simp
    have "?h ! Suc p = ?g (1 + p) (?h ! p)"
      by (rule scan_from_step [OF p])
    with IH show ?case by simp
  qed
  from run len first acc show ?thesis by blast
qed

theorem zero_cross_run_seeded_with_first_input_witness:
  "[2, -1, 3] \<noteq> ([] :: real list) \<and>
   (\<exists>h. zero_cross_run [2, -1, 3] = Inr h \<and> length h = 3 \<and> h ! 0 = 2 \<and> h ! 1 = 3 \<and> h ! 2 = 4)"
proof -
  have ne: "[2, -1, 3] \<noteq> ([] :: real list)" by simp
  from zero_cross_run_seeded_with_first_input [OF ne] obtain h where
    h: "zero_cross_run [2, -1, 3] = Inr h" "length h = length [2, -1, 3 :: real]" "h ! 0 = [2, -1, 3] ! 0"
       "\<And>p. 1 \<le> p \<and> p < length [2, -1, 3 :: real] \<Longrightarrow>
          h ! p = [2, -1, 3] ! 0 +
            (\<Sum>t = 1..p. of_int (zero_cross_counter ([2, -1, 3] ! t) ([2, -1, 3] ! (t - 1))))"
    by blast
  have "h ! 1 = 3"
    using h(4) [of 1] by (simp add: zero_cross_counter_def)
  moreover have "h ! 2 = 4"
    using h(4) [of 2] by (simp add: zero_cross_counter_def numeral_2_eq_2)
  ultimately show ?thesis using h(1,2,3) ne by auto
qed

text \<open>
  C1: the claimed step is \<open>h\<^sub>p = \<alpha> h\<^sub>p\<^sub>-\<^sub>1 + (1 - \<alpha>) x\<^sub>p\<close>. On the input \<open>[0, 1]\<close> with
  \<open>\<alpha> = 1/2\<close> that asks for \<open>h\<^sub>2 = 1/2\<close>; \<^verbatim>\<open>exponential_average\<close> returns \<open>h\<^sub>2 = 0\<close>, the
  combination of \<open>h\<^sub>1\<close> with \<open>x\<^sub>1\<close> again.
\<close>

theorem exponential_average_reads_previous_input:
  "exponential_average [0, 1] (1 / 2) = Inr [0, 0] \<and>
   (0 :: real) \<noteq> 1 / 2 * 0 + (1 - 1 / 2) * 1"
  by (simp add: exponential_average_def exponential_average_body_def)

text \<open>
  C6: with \<open>\<alpha> = 0\<close> the claimed output is the input itself. On the input \<open>[3, 5]\<close>
  \<^verbatim>\<open>exponential_average\<close> returns \<open>[3, 3]\<close>: the second state is the first input, not the
  second. With \<open>\<alpha> = 1\<close> it returns \<open>[3, 3]\<close> as well, which is what the claim says there.
\<close>

theorem exponential_average_alpha_zero_lags:
  "exponential_average [3, 5] 0 = Inr [3, 3] \<and> exponential_average [3, 5] 1 = Inr [3, 3]"
  by (simp add: exponential_average_def exponential_average_body_def)

section \<open>Properties of the histogram\<close>

subsection \<open>Rounding and the bins\<close>

lemma rint_ge_floor: "\<lfloor>y\<rfloor> \<le> rint y"
  by (simp add: rint_def Let_def)

lemma rint_le_floor_Suc: "rint y \<le> \<lfloor>y\<rfloor> + 1"
  by (simp add: rint_def Let_def)

lemma rint_eqI:
  assumes "\<bar>y - of_int k\<bar> < 1 / 2"
  shows "rint y = k"
proof (cases "of_int k \<le> y")
  case True
  with assms have fl: "\<lfloor>y\<rfloor> = k"
    by (intro floor_unique) auto
  with assms True show ?thesis
    by (simp add: rint_def Let_def)
next
  case False
  with assms have fl: "\<lfloor>y\<rfloor> = k - 1"
    by (intro floor_unique) auto
  with assms False show ?thesis
    by (simp add: rint_def Let_def)
qed

lemma rint_of_int: "rint (of_int k) = k"
  by (rule rint_eqI) simp

lemma rint_lower:
  assumes "of_int m \<le> y"
  shows "m \<le> rint y"
proof -
  from assms have "m \<le> \<lfloor>y\<rfloor>" by (simp add: le_floor_iff)
  with rint_ge_floor [of y] show ?thesis by linarith
qed

lemma rint_upper:
  assumes "y \<le> of_int m"
  shows "rint y \<le> m"
proof (cases "\<lfloor>y\<rfloor> < m")
  case True
  with rint_le_floor_Suc [of y] show ?thesis by linarith
next
  case False
  moreover from assms have "\<lfloor>y\<rfloor> \<le> m" by (simp add: floor_le_iff)
  ultimately have fl: "\<lfloor>y\<rfloor> = m" by simp
  have "of_int \<lfloor>y\<rfloor> \<le> y" by (rule of_int_floor_le)
  with fl assms have "y = of_int m" by simp
  then show ?thesis by (simp add: rint_of_int)
qed

lemma np_round_grid:
  assumes "0 \<le> a" "a \<le> 10"
  shows "np_round a 1 \<in> set grid"
proof -
  let ?r = "rint (a * 10)"
  from assms have "0 \<le> ?r" "?r \<le> 100"
    by (auto intro!: rint_lower rint_upper)
  then have "nat ?r < 101" "of_int ?r = (of_nat (nat ?r) :: real)"
    by auto
  then have "of_int ?r / 10 \<in> (\<lambda>k. real k / 10) ` {0 ..< 101}"
    by (metis (no_types) atLeastLessThan_iff imageI zero_le)
  then show ?thesis
    by (simp add: np_round_def grid_def)
qed

lemma linspace_in_grid:
  assumes "a \<in> set (linspace 0 10 10000)"
  shows "np_round a 1 \<in> set grid"
proof -
  from assms obtain i :: nat where i: "i < 10000" "a = of_nat i * (10 / 9999)"
    by (auto simp: linspace_def)
  then have "real i \<le> 9999" by simp
  then have "0 \<le> a" "a \<le> 10"
    using i(2) by simp_all
  then show ?thesis by (rule np_round_grid)
qed

lemma grid_in_linspace:
  assumes "k < 101"
  shows "real k / 10 \<in> (\<lambda>a. np_round a 1) ` set (linspace 0 10 10000)"
proof -
  define i :: nat where "i = (if k = 100 then 9999 else 100 * k)"
  let ?a = "real i * (10 / 9999)"
  from assms have "i < 10000" by (simp add: i_def)
  then have mem: "?a \<in> set (linspace 0 10 10000)"
    by (auto simp: linspace_def)
  have "rint (?a * 10) = int k"
  proof (rule rint_eqI)
    show "\<bar>?a * 10 - of_int (int k)\<bar> < 1 / 2"
      using assms by (simp add: i_def field_simps)
  qed
  then have "np_round ?a 1 = real k / 10"
    by (simp add: np_round_def)
  with mem show ?thesis by (metis imageI)
qed

lemma set_rounded_linspace:
  "set (map (\<lambda>a. np_round a 1) (linspace 0 10 10000)) = set grid"
proof
  show "set (map (\<lambda>a. np_round a 1) (linspace 0 10 10000)) \<subseteq> set grid"
    using linspace_in_grid by auto
  show "set grid \<subseteq> set (map (\<lambda>a. np_round a 1) (linspace 0 10 10000))"
    using grid_in_linspace by (auto simp: grid_def)
qed

lemma sorted_grid: "sorted grid"
  unfolding grid_def by (simp add: sorted_map sorted_wrt_iff_nth_less divide_right_mono del: upt_Suc)

lemma distinct_grid: "distinct grid"
  unfolding grid_def by (simp add: distinct_map inj_on_def del: upt_Suc)

lemma bins_eq_grid: "bins = grid"
proof -
  have "sorted bins" "distinct bins"
    by (simp_all add: bins_def np_unique_def)
  moreover have "set bins = set grid"
    using set_rounded_linspace by (simp add: bins_def np_unique_def)
  ultimately show ?thesis
    using sorted_grid distinct_grid by (intro sorted_distinct_set_unique)
qed

subsection \<open>One update and the loop\<close>

lemma clamped_bin_in_grid:
  "(let x1 = np_round x_t 1;
        x2 = (if x1 < 0 then 0 else x1);
        x3 = (if x2 > 10 then 10 else x2)
    in x3) \<in> set grid"
proof -
  have zero: "0 \<in> set grid" and ten: "10 \<in> set grid"
    using np_round_grid [of 0] np_round_grid [of 10]
    by (simp_all add: np_round_def rint_of_int [of 0, simplified] rint_of_int [of 100, simplified])
  have mid: "np_round x_t 1 \<in> set grid" if "\<not> np_round x_t 1 < 0" "\<not> np_round x_t 1 > 10"
  proof -
    let ?r = "rint (x_t * 10)"
    from that have "0 \<le> ?r" "?r \<le> 100"
      by (simp_all add: np_round_def field_simps)
    then have "nat ?r < 101" "of_int ?r = (of_nat (nat ?r) :: real)"
      by auto
    then have "of_int ?r / 10 \<in> (\<lambda>k. real k / 10) ` {0 ..< 101}"
      by (metis (no_types) atLeastLessThan_iff imageI zero_le)
    then show ?thesis
      by (simp add: np_round_def grid_def)
  qed
  show ?thesis
    using zero ten mid by (simp add: Let_def)
qed

lemma decay_loop_skip:
  "k \<notin> set ks \<Longrightarrow>
   decay_loop ks alpha ((k, v) # t) =
     (case decay_loop ks alpha t of Inl e \<Rightarrow> Inl e | Inr t' \<Rightarrow> Inr ((k, v) # t'))"
proof (induction ks arbitrary: t)
  case Nil
  show ?case by simp
next
  case (Cons key ks)
  then have "key \<noteq> k" "k \<notin> set ks" by auto
  with Cons.IH show ?case
    by (simp add: getitem_def setitem_def split: option.splits)
qed

lemma decay_loop_distinct:
  "distinct (keys h) \<Longrightarrow>
   decay_loop (keys h) alpha h = Inr (map (\<lambda>(k, v). (k, v * (1 - alpha))) h)"
proof (induction h)
  case Nil
  show ?case by (simp add: keys_def)
next
  case (Cons kv h)
  obtain k v where kv: "kv = (k, v)" by (cases kv)
  from Cons.prems kv have nk: "k \<notin> set (keys h)" and dh: "distinct (keys h)"
    by (simp_all add: keys_def)
  have "decay_loop (keys (kv # h)) alpha (kv # h)
      = decay_loop (keys h) alpha ((k, v * (1 - alpha)) # h)"
    by (simp add: kv keys_def getitem_def setitem_def)
  also have "\<dots> = Inr ((k, v * (1 - alpha)) # map (\<lambda>(k, v). (k, v * (1 - alpha))) h)"
    using decay_loop_skip [OF nk] Cons.IH [OF dh] by simp
  finally show ?case by (simp add: kv)
qed

lemma total_weight_decay:
  "total_weight (map (\<lambda>(k, v). (k, v * (1 - alpha))) h) = (1 - alpha) * total_weight h"
  by (induction h) (auto simp: total_weight_def algebra_simps)

lemma keys_decay: "keys (map (\<lambda>(k, v). (k, v * (1 - alpha))) h) = keys h"
  by (induction h) (auto simp: keys_def)

lemma keys_setitem_present: "k \<in> set (keys h) \<Longrightarrow> keys (setitem h k w) = keys h"
  by (simp add: keys_def setitem_def update_keys)

lemma total_weight_setitem:
  "map_of h k = Some v \<Longrightarrow> total_weight (setitem h k w) = total_weight h - v + w"
  by (induction h) (auto simp: total_weight_def setitem_def)

lemma getitem_present:
  assumes "k \<in> set (keys h)"
  shows "\<exists>v. map_of h k = Some v \<and> getitem h k = Inr v"
proof -
  from assms have "k \<in> fst ` set h" by (simp add: keys_def)
  then obtain v where "map_of h k = Some v"
    by (metis domD dom_map_of_conv_image_fst)
  then show ?thesis by (simp add: getitem_def)
qed

lemma update_histogram_total:
  assumes "distinct (keys h_t)" "set grid \<subseteq> set (keys h_t)"
  shows "\<exists>h'. update_histogram h_t x_t alpha = Inr h' \<and> keys h' = keys h_t \<and>
               total_weight h' = (1 - alpha) * total_weight h_t + alpha"
proof -
  let ?h1 = "map (\<lambda>(k, v). (k, v * (1 - alpha))) h_t"
  define x3 where "x3 = (let x1 = np_round x_t 1;
        x2 = (if x1 < 0 then 0 else x1);
        x3 = (if x2 > 10 then 10 else x2)
    in x3)"
  have decay: "decay_loop (keys h_t) alpha h_t = Inr ?h1"
    using assms(1) by (rule decay_loop_distinct)
  have "x3 \<in> set grid"
    unfolding x3_def by (rule clamped_bin_in_grid)
  with assms(2) have mem: "x3 \<in> set (keys ?h1)"
    by (auto simp: keys_decay)
  from getitem_present [OF mem] obtain v where
    v: "map_of ?h1 x3 = Some v" "getitem ?h1 x3 = Inr v" by blast
  have run: "update_histogram h_t x_t alpha = Inr (setitem ?h1 x3 (v + alpha))"
    using decay v(2) by (simp add: update_histogram_def x3_def Let_def)
  have "keys (setitem ?h1 x3 (v + alpha)) = keys h_t"
    using keys_setitem_present [OF mem] by (simp add: keys_decay)
  moreover have "total_weight (setitem ?h1 x3 (v + alpha)) = (1 - alpha) * total_weight h_t + alpha"
    using total_weight_setitem [OF v(1)] by (simp add: total_weight_decay)
  ultimately show ?thesis using run by blast
qed

lemma histogram_loop_total:
  assumes "distinct (keys h_t)" "set grid \<subseteq> set (keys h_t)"
  shows "\<exists>h' hs n'. histogram_loop x h_t h_all n = Inr (h', h_all @ hs, n') \<and>
           length hs = length x \<and>
           (\<forall>g \<in> set hs. keys g = keys h_t \<and> (total_weight h_t = 1 \<longrightarrow> total_weight g = 1))"
  using assms
proof (induction x arbitrary: h_t h_all n)
  case Nil
  show ?case by simp
next
  case (Cons x_t xs)
  from update_histogram_total [OF Cons.prems, of x_t "1 / 10"] obtain h1 where
    h1: "update_histogram h_t x_t (1 / 10) = Inr h1" "keys h1 = keys h_t"
        "total_weight h1 = (1 - 1 / 10) * total_weight h_t + 1 / 10"
    by blast
  from Cons.prems h1(2) have pre: "distinct (keys h1)" "set grid \<subseteq> set (keys h1)"
    by simp_all
  from Cons.IH [OF pre, of "h_all @ [h1]" "n + 1"] obtain h' hs n' where
    rest: "histogram_loop xs h1 (h_all @ [h1]) (n + 1) = Inr (h', (h_all @ [h1]) @ hs, n')"
          "length hs = length xs"
          "\<forall>g \<in> set hs. keys g = keys h1 \<and> (total_weight h1 = 1 \<longrightarrow> total_weight g = 1)"
    by blast
  have "histogram_loop (x_t # xs) h_t h_all n = Inr (h', h_all @ (h1 # hs), n')"
    using h1(1) rest(1) by simp
  moreover have "length (h1 # hs) = length (x_t # xs)"
    using rest(2) by simp
  moreover have "\<forall>g \<in> set (h1 # hs). keys g = keys h_t \<and> (total_weight h_t = 1 \<longrightarrow> total_weight g = 1)"
    using rest(3) h1(2,3) by auto
  ultimately show ?case by blast
qed

lemma histogram_from_total:
  assumes "distinct (keys h_t)" "set grid \<subseteq> set (keys h_t)"
  shows "\<exists>h_all. histogram_from h_t x = Inr h_all \<and> length h_all = length x + 1 \<and>
           h_all ! 0 = h_t \<and>
           (\<forall>g \<in> set h_all. keys g = keys h_t \<and> (total_weight h_t = 1 \<longrightarrow> total_weight g = 1))"
proof -
  from histogram_loop_total [OF assms, of x "[h_t]" 1] obtain h' hs n' where
    run: "histogram_loop x h_t [h_t] 1 = Inr (h', [h_t] @ hs, n')" "length hs = length x"
         "\<forall>g \<in> set hs. keys g = keys h_t \<and> (total_weight h_t = 1 \<longrightarrow> total_weight g = 1)"
    by blast
  have "histogram_from h_t x = Inr (h_t # hs)"
    using run(1) by (simp add: histogram_from_def)
  with run(2,3) show ?thesis by auto
qed

lemma keys_h_init: "keys h_init = grid"
  by (simp add: keys_def h_init_def bins_eq_grid comp_def)

lemma histogram_state_ok:
  assumes "keys h_t = bins"
  shows "distinct (keys h_t)" "set grid \<subseteq> set (keys h_t)"
  using assms by (simp_all add: bins_eq_grid distinct_grid)

text \<open>
  C4: a histogram state is a dict whose keys are the bins. If its weights sum to 1 before
  \<^verbatim>\<open>update_histogram\<close>, the step returns a state whose weights sum to 1 again: every weight
  is scaled by \<open>1 - \<alpha>\<close> and \<open>\<alpha>\<close> is added to one bin. Hence every state in the history of
  a run that starts from a normalized state has total weight 1. The step preserves the
  total for every \<open>\<alpha>\<close>, in particular for \<open>\<alpha>\<close> in \<open>[0, 1]\<close>.
\<close>

theorem update_histogram_preserves_total:
  assumes "keys h_t = bins" "total_weight h_t = 1"
  shows "(\<exists>h'. update_histogram h_t x_t alpha = Inr h' \<and> keys h' = bins \<and> total_weight h' = 1)
       \<and> (\<exists>h_all. histogram_from h_t x = Inr h_all \<and> length h_all = length x + 1 \<and>
             (\<forall>g \<in> set h_all. total_weight g = 1))"
proof
  from update_histogram_total [OF histogram_state_ok [OF assms(1)], of x_t alpha] assms
  show "\<exists>h'. update_histogram h_t x_t alpha = Inr h' \<and> keys h' = bins \<and> total_weight h' = 1"
    by auto
  from histogram_from_total [OF histogram_state_ok [OF assms(1)], of x] assms(2)
  show "\<exists>h_all. histogram_from h_t x = Inr h_all \<and> length h_all = length x + 1 \<and>
             (\<forall>g \<in> set h_all. total_weight g = 1)"
    by auto
qed

theorem update_histogram_preserves_total_witness:
  "keys (map (\<lambda>a. (a, if a = 0 then 1 else 0)) bins) = bins \<and>
   total_weight (map (\<lambda>a. (a, if a = 0 then 1 else 0)) bins) = 1 \<and>
   (\<exists>h'. update_histogram (map (\<lambda>a. (a, if a = 0 then 1 else 0)) bins) (37 / 10) (1 / 10) = Inr h' \<and>
         keys h' = bins \<and> total_weight h' = 1) \<and>
   (\<exists>h_all. histogram_from (map (\<lambda>a. (a, if a = 0 then 1 else 0)) bins) [37 / 10, 12] = Inr h_all \<and>
         length h_all = 3 \<and> total_weight (h_all ! 2) = 1)"
proof -
  let ?h = "map (\<lambda>a. (a, if a = 0 then 1 else 0 :: real)) bins"
  have k: "keys ?h = bins"
    by (simp add: keys_def comp_def)
  have "0 \<in> set bins"
    by (simp add: bins_eq_grid grid_def image_iff)
  moreover have "distinct bins"
    by (simp add: bins_eq_grid distinct_grid)
  ultimately have w: "total_weight ?h = 1"
    by (simp add: total_weight_def comp_def sum_list_distinct_conv_sum_set)
  from update_histogram_preserves_total [OF k w, of "37 / 10" "1 / 10" "[37 / 10, 12]"]
  obtain h' h_all where
    "update_histogram ?h (37 / 10) (1 / 10) = Inr h'" "keys h' = bins" "total_weight h' = 1"
    "histogram_from ?h [37 / 10, 12] = Inr h_all" "length h_all = length [37 / 10, 12 :: real] + 1"
    "\<forall>g \<in> set h_all. total_weight g = 1"
    by blast
  moreover from this have "total_weight (h_all ! 2) = 1"
    by simp
  ultimately show ?thesis using k w by simp
qed

text \<open>
  C8: the bins computed at initialization are exactly the grid \<open>0, 0.1, \<dots>, 10\<close>, they are
  the keys of the initial state, and \<^verbatim>\<open>update_histogram\<close> on a state with these keys returns
  a state with the same keys, for every real input and every \<open>\<alpha>\<close>: the rounded and clamped
  input is always one of the bins, so the update raises no \<open>KeyError\<close> and adds no key.
\<close>

theorem histogram_bin_set_fixed:
  assumes "keys h_t = bins"
  shows "bins = map (\<lambda>k. of_nat k / 10) [0 ..< 101] \<and> keys h_init = bins \<and>
         (\<exists>h'. update_histogram h_t x_t alpha = Inr h' \<and> keys h' = keys h_t)"
proof -
  from update_histogram_total [OF histogram_state_ok [OF assms], of x_t alpha]
  have "\<exists>h'. update_histogram h_t x_t alpha = Inr h' \<and> keys h' = keys h_t"
    by auto
  moreover have "bins = map (\<lambda>k. of_nat k / 10) [0 ..< 101]"
    using bins_eq_grid by (simp only: grid_def)
  moreover have "keys h_init = bins"
    by (simp add: keys_h_init bins_eq_grid)
  ultimately show ?thesis by blast
qed

theorem histogram_bin_set_fixed_witness:
  "keys h_init = bins \<and>
   (\<exists>h'. update_histogram h_init (1234 / 100) (1 / 10) = Inr h' \<and> keys h' = keys h_init)"
proof -
  have k: "keys h_init = bins"
    by (simp add: keys_h_init bins_eq_grid)
  from histogram_bin_set_fixed [OF k, of "1234 / 100" "1 / 10"] k show ?thesis
    by blast
qed

lemma histogram_run_total:
  "\<exists>h_all. histogram_run x = Inr h_all \<and> length h_all = length x + 1 \<and> h_all ! 0 = h_init"
proof -
  have "distinct (keys h_init)" "set grid \<subseteq> set (keys h_init)"
    by (simp_all add: keys_h_init distinct_grid)
  from histogram_from_total [OF this, of x] show ?thesis
    by (auto simp: histogram_run_def)
qed

text \<open>
  The histogram loop starts its history with a copy of the initial state and appends one
  state per input, so on a one-element input it returns two states.
\<close>

theorem histogram_run_length_counterexample:
  "output_length (histogram_run [1]) \<noteq> Some (length [1 :: real])"
  using histogram_run_total [of "[1]"] by (auto simp: output_length_def)

text \<open>
  C5, as the loops are written: for a non-empty input the exponential average, the running maximum and the
  zero-crossing count return exactly one hidden state per input element; the histogram loop
  returns one more, the initial state followed by one state per input element.
\<close>

theorem output_length_per_variant:
  assumes "x \<noteq> []"
  shows "output_length (exponential_average x alpha) = Some (length x) \<and>
         output_length (running_maximum x) = Some (length x) \<and>
         output_length (zero_cross_run x) = Some (length x) \<and>
         output_length (histogram_run x) = Some (length x + 1)"
proof -
  have "output_length (exponential_average x alpha) = Some (length x)"
    using assms by (simp add: exponential_average_scan output_length_def length_scan_from)
  moreover have "output_length (running_maximum x) = Some (length x)"
    using assms by (simp add: running_maximum_scan output_length_def length_scan_from)
  moreover have "output_length (zero_cross_run x) = Some (length x)"
    using assms by (simp add: zero_cross_run_scan output_length_def length_scan_from)
  moreover have "output_length (histogram_run x) = Some (length x + 1)"
    using histogram_run_total [of x] by (auto simp: output_length_def)
  ultimately show ?thesis by simp
qed

theorem output_length_per_variant_witness:
  "[1, 2, 3] \<noteq> ([] :: real list) \<and>
   output_length (exponential_average [1, 2, 3] (9 / 10)) = Some 3 \<and>
   output_length (running_maximum [1, 2, 3]) = Some 3 \<and>
   output_length (zero_cross_run [1, 2, 3]) = Some 3 \<and>
   output_length (histogram_run [1, 2, 3]) = Some 4"
proof -
  have ne: "[1, 2, 3] \<noteq> ([] :: real list)" by simp
  from output_length_per_variant [OF ne, of "9 / 10"] show ?thesis by simp
qed

text \<open>
  On the empty input the histogram loop raises nothing: it returns the history that holds
  only the initial state.
\<close>

theorem histogram_run_empty_returns:
  "histogram_run [] = Inr [h_init]"
  by (simp add: histogram_run_def histogram_from_def)

text \<open>
  C9, as the loops are written: on the empty input the variants that seed the state with the first input
  (the exponential average for every \<open>\<alpha>\<close>, the running maximum, the zero-crossing count)
  fail with an \<open>IndexError\<close>; the histogram loop, whose initial state does not come from
  the input, returns a history of length 1.
\<close>

theorem empty_input_per_variant:
  "exponential_average [] alpha = Inl IndexError \<and>
   running_maximum [] = Inl IndexError \<and>
   zero_cross_run [] = Inl IndexError \<and>
   output_length (histogram_run []) = Some 1"
  by (simp add: exponential_average_def running_maximum_def zero_cross_run_def
      histogram_run_def histogram_from_def output_length_def)

section \<open>Running variance against the textbook definition\<close>

lemma sum_list_sq_dev:
  "(\<Sum>y\<leftarrow>ys. (y - c)\<^sup>2)
     = (\<Sum>y\<leftarrow>ys. y\<^sup>2) - 2 * c * sum_list ys + of_nat (length ys) * (c :: real)\<^sup>2"
  by (induction ys) (simp_all add: power2_eq_square algebra_simps)

lemma population_variance_alt:
  "population_variance ys =
     ((\<Sum>y\<leftarrow>ys. y\<^sup>2) - 2 * mean ys * sum_list ys + of_nat (length ys) * (mean ys)\<^sup>2)
       / of_nat (length ys)"
  by (simp add: population_variance_def sum_list_sq_dev)

lemma running_variance_step_first:
  "running_variance_step 1 prev x = (mean [x], population_variance [x])"
  by (simp add: running_variance_step_def running_mean_step_def mean_def population_variance_def)

lemma running_variance_step_next:
  assumes "pre \<noteq> []"
  shows "running_variance_step (Suc (length pre)) (mean pre, population_variance pre) x
           = (mean (pre @ [x]), population_variance (pre @ [x]))"
proof -
  define n :: real where "n = of_nat (length pre)"
  define A where "A = sum_list pre"
  define Q where "Q = (\<Sum>y\<leftarrow>pre. y\<^sup>2)"
  from assms have n: "0 < n" by (simp add: n_def)
  have m: "mean pre = A / n" and m': "mean (pre @ [x]) = (A + x) / (n + 1)"
    by (simp_all add: mean_def A_def n_def add.commute)
  have v: "population_variance pre = (Q - 2 * (A / n) * A + n * (A / n)\<^sup>2) / n"
    by (simp add: population_variance_alt m) (simp add: A_def Q_def n_def)
  have v': "population_variance (pre @ [x])
      = (Q + x\<^sup>2 - 2 * ((A + x) / (n + 1)) * (A + x) + (n + 1) * ((A + x) / (n + 1))\<^sup>2) / (n + 1)"
    by (simp add: population_variance_alt m') (simp add: A_def Q_def n_def add.commute)
  have n0: "n \<noteq> 0" and n1: "n + 1 \<noteq> 0"
    using n by simp_all
  have suc: "real (Suc (length pre)) = n + 1"
    by (simp add: n_def)
  have ave: "(n + 1 - 1) / (n + 1) * (A / n) + 1 / (n + 1) * x = (A + x) / (n + 1)"
    using n0 n1 by (simp add: add_divide_distrib)
  have var: "(n + 1 - 1) / (n + 1) * ((Q - 2 * (A / n) * A + n * (A / n)\<^sup>2) / n)
        + 1 / (n + 1) * (x - (A + x) / (n + 1)) * (x - A / n)
      = (Q + x\<^sup>2 - 2 * ((A + x) / (n + 1)) * (A + x) + (n + 1) * ((A + x) / (n + 1))\<^sup>2) / (n + 1)"
    using n0 n1 by (simp add: divide_simps power2_eq_square) algebra
  show ?thesis
    unfolding running_variance_step_def running_mean_step_def Let_def fst_conv snd_conv
      m m' v v' suc
    using ave var by (simp only:)
qed


lemma length_running_variance_loop: "length (running_variance_loop p prev xs) = length xs"
  by (induction xs arbitrary: p prev) (simp_all add: Let_def)

lemma running_variance_step_prefix:
  assumes "pre = [] \<or> prev = (mean pre, population_variance pre)"
  shows "running_variance_step (Suc (length pre)) prev x
           = (mean (pre @ [x]), population_variance (pre @ [x]))"
proof (cases "pre = []")
  case True
  then show ?thesis using running_variance_step_first [of prev x] by simp
next
  case False
  with assms show ?thesis using running_variance_step_next [OF False, of x] by simp
qed

lemma running_variance_loop_prefix:
  assumes "pre = [] \<or> prev = (mean pre, population_variance pre)" "k < length xs"
  shows "running_variance_loop (Suc (length pre)) prev xs ! k
           = (mean (pre @ take (Suc k) xs), population_variance (pre @ take (Suc k) xs))"
  using assms
proof (induction xs arbitrary: pre prev k)
  case Nil
  then show ?case by simp
next
  case (Cons x xs)
  let ?cur = "running_variance_step (Suc (length pre)) prev x"
  have cur: "?cur = (mean (pre @ [x]), population_variance (pre @ [x]))"
    using Cons.prems(1) by (rule running_variance_step_prefix)
  show ?case
  proof (cases k)
    case 0
    with cur show ?thesis by (simp add: Let_def)
  next
    case (Suc j)
    with Cons.prems(2) have j: "j < length xs" by simp
    have "running_variance_loop (Suc (length (pre @ [x]))) ?cur xs ! j
            = (mean ((pre @ [x]) @ take (Suc j) xs), population_variance ((pre @ [x]) @ take (Suc j) xs))"
      using cur j by (intro Cons.IH) simp_all
    with Suc show ?thesis by (simp add: Let_def)
  qed
qed

text \<open>
  C2: for a non-empty input and every step \<open>p\<close>, the value of the coupled recursion equals
  the population variance of the prefix \<open>x\<^sub>1 \<dots> x\<^sub>p\<close> (and the running mean equals its mean),
  exactly, over the reals, whatever the state before the first input was.
\<close>

theorem running_variance_matches_population_variance:
  assumes "x \<noteq> []"
  shows "\<exists>h. running_variance initial x = Inr h \<and> length h = length x \<and>
           (\<forall>p. 1 \<le> p \<and> p \<le> length x \<longrightarrow>
                fst (h ! (p - 1)) = mean (take p x) \<and>
                snd (h ! (p - 1)) = population_variance (take p x))"
proof -
  let ?h = "running_variance_loop 1 initial x"
  have run: "running_variance initial x = Inr ?h"
    using assms by (simp add: running_variance_def)
  have len: "length ?h = length x"
    by (rule length_running_variance_loop)
  have "?h ! (p - 1) = (mean (take p x), population_variance (take p x))"
    if "1 \<le> p" "p \<le> length x" for p
  proof -
    from that have "p - 1 < length x" "Suc (p - 1) = p" by simp_all
    then show ?thesis
      using running_variance_loop_prefix [of "[]" initial "p - 1" x] by simp
  qed
  with run len show ?thesis by simp
qed

theorem running_variance_matches_population_variance_witness:
  "[1, 3] \<noteq> ([] :: real list) \<and>
   (\<exists>h. running_variance (0, 0) [1, 3] = Inr h \<and> length h = 2 \<and>
        h ! 0 = (1, 0) \<and> h ! 1 = (2, 1))"
proof -
  have ne: "[1, 3] \<noteq> ([] :: real list)" by simp
  from running_variance_matches_population_variance [OF ne, of "(0, 0)"] obtain h where
    h: "running_variance (0, 0) [1, 3] = Inr h" "length h = length [1, 3 :: real]"
       "\<And>p. 1 \<le> p \<and> p \<le> length [1, 3 :: real] \<Longrightarrow>
          fst (h ! (p - 1)) = mean (take p [1, 3]) \<and>
          snd (h ! (p - 1)) = population_variance (take p [1, 3])"
    by blast
  have "h ! 0 = (1, 0)"
    using h(3) [of 1] by (simp add: mean_def population_variance_def prod_eq_iff)
  moreover have "h ! 1 = (2, 1)"
    using h(3) [of 2] by (simp add: mean_def population_variance_def prod_eq_iff)
  ultimately show ?thesis using h(1,2) ne by simp
qed

end
